theory Spec2Isabelle
  imports Main "HOL-Library.Log_Nat" "HOL-Library.Stream"
begin

text \<open>
  A model of \<^verbatim>\<open>src/App.tsx\<close>: the two slider mappings, the React state of the component
  with the handlers and timer callbacks that change it, and the frame that \<^verbatim>\<open>render\<close>
  draws. The audio element and the size of the canvas are inputs of no claim: the audio
  handlers are left out, and the canvas size is an argument of \<^verbatim>\<open>render\<close>.
\<close>

section \<open>JavaScript numbers\<close>

text \<open>
  Every \<^verbatim>\<open>number\<close> of \<^verbatim>\<open>App.tsx\<close> is an IEEE 754 binary64 value. The finite ones are
  rationals, and each arithmetic operator returns the exact result rounded to the nearest
  binary64 value, ties to the even significand. The values computed here (slider positions
  in \<open>[0, 100]\<close>, durations, array lengths, results of \<^verbatim>\<open>Math.random()\<close>) stay far below
  \<open>2^1024\<close> and every divisor is non-zero, so infinities and NaN are not part of the model.
\<close>

type_synonym number = rat

definition ilog2 :: "rat \<Rightarrow> int" where
  \<comment> \<open>the exponent \<open>e\<close> with \<open>2^e \<le> x < 2^(e+1)\<close>, for \<open>x > 0\<close>\<close>
  "ilog2 x =
     (if 1 \<le> x then bitlen \<lfloor>x\<rfloor> - 1
      else - bitlen (\<lceil>1 / x\<rceil> - 1))"

definition round_half_even :: "rat \<Rightarrow> int" where
  "round_half_even x =
     (let f = \<lfloor>x\<rfloor>; d = x - of_int f
      in if d < 1 / 2 then f
         else if 1 / 2 < d then f + 1
         else if even f then f else f + 1)"

definition quantum :: "rat \<Rightarrow> rat" where
  \<comment> \<open>spacing of the binary64 values around \<open>x\<close>: 53 significant bits, subnormals from \<open>2^-1074\<close>\<close>
  "quantum x = 2 powi (max (ilog2 \<bar>x\<bar> - 52) (- 1074))"

definition fl :: "rat \<Rightarrow> number" where
  "fl x = (if x = 0 then 0 else of_int (round_half_even (x / quantum x)) * quantum x)"

definition fadd :: "number \<Rightarrow> number \<Rightarrow> number" where
  "fadd x y = fl (x + y)"

definition fsub :: "number \<Rightarrow> number \<Rightarrow> number" where
  "fsub x y = fl (x - y)"

definition fmul :: "number \<Rightarrow> number \<Rightarrow> number" where
  "fmul x y = fl (x * y)"

definition fdiv :: "number \<Rightarrow> number \<Rightarrow> number" where
  \<comment> \<open>only used with a non-zero divisor\<close>
  "fdiv x y = fl (x / y)"

section \<open>The slider mappings\<close>

definition mapSpeedToDuration :: "number \<Rightarrow> number" where
  "mapSpeedToDuration speed =
     (let min = 600; max = 4000
      in fsub max (fmul (fdiv speed 100) (fsub max min)))"

definition mapDelayToMs :: "number \<Rightarrow> number" where
  "mapDelayToMs delay =
     (let min = 500; max = 6000
      in fadd min (fmul (fdiv delay 100) (fsub max min)))"

section \<open>The component state\<close>

text \<open>
  An object URL is identified by its position in the browser's blob URL store: the \<open>n\<close>-th
  call of \<^verbatim>\<open>URL.createObjectURL\<close> returns URL \<open>n\<close>. The source never revokes one.
\<close>

type_synonym url = nat

datatype File = File (fname: string)

datatype HTMLImageElement = Image (src: url)

record ImageEntry =
  url :: url
  img :: HTMLImageElement

text \<open>
  One call of \<^verbatim>\<open>handleImageUpload\<close> that passed the guard leaves a closure behind, shared
  by the \<^verbatim>\<open>onload\<close> callbacks of its images: \<^verbatim>\<open>files.length\<close>, \<^verbatim>\<open>newEntries\<close>,
  \<^verbatim>\<open>loadedCount\<close>, and the constant \<^verbatim>\<open>isPlaying\<close> of the render whose handler ran.
\<close>

record upload =
  files_length :: nat
  newEntries :: "ImageEntry list"
  loadedCount :: nat
  isPlaying_seen :: bool

record page =
  images :: "ImageEntry list"
  currentIndex :: nat
  isPlaying :: bool
  speed :: number
  delay :: number
  shade :: number
  volume :: number
  objectURLs :: "File list"
  uploads :: "upload list"

definition initial :: page where
  "initial = \<lparr>images = [], currentIndex = 0, isPlaying = False,
     speed = 60, delay = 40, shade = 20, volume = 50, objectURLs = [], uploads = []\<rparr>"

section \<open>Image upload\<close>

definition createObjectURL :: "File list \<Rightarrow> File \<Rightarrow> url \<times> File list" where
  "createObjectURL store file = (length store, store @ [file])"

text \<open>The body of the \<^verbatim>\<open>forEach\<close> callback, without the \<^verbatim>\<open>onload\<close> closure it installs.\<close>

definition forEach_file :: "File \<Rightarrow> File list \<times> ImageEntry list \<Rightarrow> File list \<times> ImageEntry list" where
  "forEach_file file acc =
     (let (u, store) = createObjectURL (fst acc) file;
          i = Image u
      in (store, snd acc @ [\<lparr>url = u, img = i\<rparr>]))"

definition handleImageUpload :: "page \<Rightarrow> File list option \<Rightarrow> page" where
  "handleImageUpload s files =
     (case files of
        None \<Rightarrow> s
      | Some fs \<Rightarrow>
          if length fs = 0 then s
          else
            let (store, entries) = fold forEach_file fs (objectURLs s, [])
            in s\<lparr>objectURLs := store,
                 uploads := uploads s @
                   [\<lparr>files_length = length fs, newEntries = entries,
                     loadedCount = 0, isPlaying_seen = isPlaying s\<rparr>]\<rparr>)"

text \<open>
  \<^verbatim>\<open>img.onload\<close> of an image of upload \<open>b\<close>. The browser fires it once for an image that
  decodes; an image that fails to decode fires \<^verbatim>\<open>error\<close> instead, for which the source
  installs no handler.
\<close>

definition img_onload :: "page \<Rightarrow> nat \<Rightarrow> page" where
  "img_onload s b =
     (if length (uploads s) \<le> b then s
      else
        let c = (uploads s ! b)\<lparr>loadedCount := loadedCount (uploads s ! b) + 1\<rparr>;
            s1 = s\<lparr>uploads := (uploads s)[b := c]\<rparr>
        in if loadedCount c = files_length c then
             let s2 = s1\<lparr>images := images s1 @ newEntries c\<rparr>
             in if \<not> isPlaying_seen c then s2\<lparr>isPlaying := True\<rparr> else s2
           else s1)"

section \<open>The advance timer\<close>

definition random_index :: "nat \<Rightarrow> number \<Rightarrow> nat" where
  \<comment> \<open>\<^verbatim>\<open>Math.floor(Math.random() * images.length)\<close>, for the value \<open>r\<close> of \<^verbatim>\<open>Math.random()\<close>\<close>
  "random_index len r = nat \<lfloor>fmul r (of_nat len)\<rfloor>"

definition Math_random :: "number \<Rightarrow> bool" where
  \<comment> \<open>what \<^verbatim>\<open>Math.random()\<close> may return: a binary64 value in \<open>[0, 1)\<close>\<close>
  "Math_random r \<longleftrightarrow> 0 \<le> r \<and> r < 1 \<and> fl r = r"

text \<open>
  The \<^verbatim>\<open>while\<close> loop of the updater; \<open>rs\<close> holds the values the successive calls of
  \<^verbatim>\<open>Math.random()\<close> return. \<open>None\<close> is a loop that never ends.
\<close>

partial_function (option) reroll :: "nat \<Rightarrow> nat \<Rightarrow> nat \<Rightarrow> number stream \<Rightarrow> nat option" where
  "reroll len prev next rs =
     (if next = prev then reroll len prev (random_index len (shd rs)) (stl rs)
      else Some next)"

declare reroll.simps [code]

definition setCurrentIndex_updater :: "nat \<Rightarrow> number stream \<Rightarrow> nat \<Rightarrow> nat option" where
  "setCurrentIndex_updater len rs prev =
     (if len \<le> 1 then Some prev else reroll len prev prev rs)"

text \<open>
  The timeout of the cycling effect. The effect sets no timer when \<^verbatim>\<open>!isPlaying\<close> or
  \<^verbatim>\<open>images.length <= 1\<close>, and then no timeout fires. It runs again, with a new timer in
  place of the old one, whenever \<^verbatim>\<open>isPlaying\<close>, \<^verbatim>\<open>images.length\<close>, \<^verbatim>\<open>delay\<close> or
  \<^verbatim>\<open>currentIndex\<close> changes, so the length the callback holds is the length of the list.
\<close>

definition advance_timeout :: "page \<Rightarrow> number stream \<Rightarrow> page option" where
  "advance_timeout s rs =
     (if \<not> isPlaying s \<or> length (images s) \<le> 1 then Some s
      else map_option (\<lambda>n. s\<lparr>currentIndex := n\<rparr>)
             (setCurrentIndex_updater (length (images s)) rs (currentIndex s)))"

section \<open>Events\<close>

datatype event =
    ImageUpload "File list option"
  | ImageLoad nat
  | ImageError nat
  | PlayPauseClick
  | SpeedChange number
  | DelayChange number
  | ShadeChange number
  | VolumeChange number
  | AdvanceTimeout "number stream"

definition step :: "page \<Rightarrow> event \<Rightarrow> page option" where
  "step s e =
     (case e of
        ImageUpload files \<Rightarrow> Some (handleImageUpload s files)
      | ImageLoad b \<Rightarrow> Some (img_onload s b)
      | ImageError b \<Rightarrow> Some s
      | PlayPauseClick \<Rightarrow>
          Some (if length (images s) = 0 then s else s\<lparr>isPlaying := \<not> isPlaying s\<rparr>)
      | SpeedChange v \<Rightarrow> Some (s\<lparr>speed := v\<rparr>)
      | DelayChange v \<Rightarrow> Some (s\<lparr>delay := v\<rparr>)
      | ShadeChange v \<Rightarrow> Some (s\<lparr>shade := v\<rparr>)
      | VolumeChange v \<Rightarrow> Some (s\<lparr>volume := v\<rparr>)
      | AdvanceTimeout rs \<Rightarrow> advance_timeout s rs)"

fun run :: "page \<Rightarrow> event list \<Rightarrow> page option" where
  "run s [] = Some s"
| "run s (e # es) = (case step s e of None \<Rightarrow> None | Some s' \<Rightarrow> run s' es)"


definition random_draws_ok :: "event \<Rightarrow> bool" where
  \<comment> \<open>the values a timeout draws are results of \<^verbatim>\<open>Math.random()\<close>\<close>
  "random_draws_ok e = (case e of AdvanceTimeout rs \<Rightarrow> \<forall>r\<in>sset rs. Math_random r | _ \<Rightarrow> True)"

definition index_ok :: "page \<Rightarrow> bool" where
  "index_ok s \<longleftrightarrow>
     (if images s = [] then currentIndex s = 0 else currentIndex s < length (images s))"

section \<open>The animation effect and the frames it draws\<close>

datatype canvas_op =
    ClearRect number number number number
  | FillStyle string
  | FillRect number number number number
  | Save
  | Restore
  | Translate number number
  | Rotate number
  | GlobalAlpha number
  | DrawImage HTMLImageElement number number number number

text \<open>The canvas element: the resize handler sets its size, \<^verbatim>\<open>render\<close> reads it at each frame.\<close>

record canvas =
  width :: number
  height :: number

text \<open>
  The placement of the image, computed once per transition from the canvas size, the
  image size and two calls of \<^verbatim>\<open>Math.random()\<close> (lines 128 to 146). No claim depends on how;
  the effect takes the five values as they are.
\<close>

record placement =
  drawWidth :: number
  drawHeight :: number
  centerX :: number
  centerY :: number
  angleRad :: number

text \<open>What the \<^verbatim>\<open>render\<close> closure holds: the placement and four more constants of the effect.\<close>

record transition = placement +
  image :: HTMLImageElement
  duration :: number
  start :: number
  shade_seen :: number

datatype effect_result = NoTransition | TypeError | Transition transition

text \<open>
  The effect on \<^verbatim>\<open>[currentIndex, images, speed, shade]\<close>, for a mounted canvas with a 2D
  context, at time \<open>now\<close> of \<^verbatim>\<open>performance.now()\<close>. With an index outside the list,
  \<^verbatim>\<open>images[currentIndex]\<close> is \<^verbatim>\<open>undefined\<close> and reading its \<^verbatim>\<open>img\<close> throws.
\<close>

definition animation_effect :: "page \<Rightarrow> placement \<Rightarrow> number \<Rightarrow> effect_result" where
  "animation_effect s p now =
     (if length (images s) = 0 then NoTransition
      else if length (images s) \<le> currentIndex s then TypeError
      else
        let entry = images s ! currentIndex s
        in Transition
             \<lparr>drawWidth = drawWidth p, drawHeight = drawHeight p, centerX = centerX p,
              centerY = centerY p, angleRad = angleRad p,
              image = img entry, duration = mapSpeedToDuration (speed s), start = now,
              shade_seen = shade s\<rparr>)"

definition render :: "transition \<Rightarrow> canvas \<Rightarrow> number \<Rightarrow> canvas_op list \<times> bool" where
  \<comment> \<open>the operations of one frame, and whether another frame is requested\<close>
  "render c cv time =
     (let t = min 1 (fdiv (fsub time (start c)) (duration c));
          alpha = t
      in ([ClearRect 0 0 (width cv) (height cv),
           FillStyle ''#05060a'',
           FillRect 0 0 (width cv) (height cv),
           Save,
           Translate (centerX c) (centerY c),
           Rotate (angleRad c),
           GlobalAlpha alpha,
           DrawImage (image c) (fdiv (- drawWidth c) 2) (fdiv (- drawHeight c) 2)
             (drawWidth c) (drawHeight c),
           Restore] @
          (if 0 < shade_seen c then
             let shadeAlpha = fmul (fdiv (shade_seen c) 100) (fl (65 / 100))
             in [Save, GlobalAlpha shadeAlpha, FillStyle ''#000000'',
                 FillRect 0 0 (width cv) (height cv), Restore]
           else []),
          t < 1))"

section \<open>Rounding: the exponent and the error of one operation\<close>

lemma bitlen_pos: "0 < m \<Longrightarrow> 1 \<le> bitlen m"
  using bitlen_ge_iff_power [of 1 m] by simp

lemma ilog2_lower:
  assumes "0 < x"
  shows "2 powi (ilog2 x) \<le> x"
proof (cases "1 \<le> x")
  case True
  define m where "m = \<lfloor>x\<rfloor>"
  have m: "0 < m" using True by (simp add: m_def)
  have "2 ^ nat (bitlen m - 1) \<le> m" using bitlen_bounds [OF m] by simp
  then have "(of_int (2 ^ nat (bitlen m - 1)) :: rat) \<le> of_int m" by (simp only: of_int_le_iff)
  also have "of_int m \<le> x" by (simp add: m_def)
  finally have "(2::rat) ^ nat (bitlen m - 1) \<le> x" by simp
  moreover have "ilog2 x = bitlen m - 1" using True by (simp add: ilog2_def m_def)
  moreover have "0 \<le> bitlen m - 1" using bitlen_pos [OF m] by simp
  ultimately show ?thesis by (simp add: power_int_def)
next
  case False
  define c where "c = \<lceil>1 / x\<rceil>"
  define k where "k = bitlen (c - 1)"
  have y: "1 < 1 / x" using False assms by simp
  then have c: "0 < c - 1" by (simp add: c_def less_ceiling_iff)
  have "c - 1 < 2 ^ nat k" using bitlen_bounds [OF c] by (simp add: k_def)
  then have "c \<le> 2 ^ nat k" by simp
  then have "(of_int c :: rat) \<le> of_int (2 ^ nat k)" by (simp only: of_int_le_iff)
  then have "of_int c \<le> (2::rat) ^ nat k" by simp
  moreover have "1 / x \<le> of_int c" by (simp add: c_def)
  ultimately have "1 / x \<le> 2 ^ nat k" by linarith
  then have "1 / 2 ^ nat k \<le> x" using assms by (simp add: field_simps)
  moreover have "ilog2 x = - k" using False by (simp add: ilog2_def c_def k_def)
  moreover have "1 \<le> k" using bitlen_pos [OF c] by (simp add: k_def)
  ultimately show ?thesis by (simp add: power_int_def inverse_eq_divide power_one_over)
qed

lemma ilog2_upper:
  assumes "0 < x"
  shows "x < 2 powi (ilog2 x + 1)"
proof (cases "1 \<le> x")
  case True
  define m where "m = \<lfloor>x\<rfloor>"
  have m: "0 < m" using True by (simp add: m_def)
  have "m < 2 ^ nat (bitlen m)" using bitlen_bounds [OF m] by simp
  then have "m + 1 \<le> 2 ^ nat (bitlen m)" by simp
  then have "(of_int (m + 1) :: rat) \<le> of_int (2 ^ nat (bitlen m))" by (simp only: of_int_le_iff)
  then have "of_int m + 1 \<le> (2::rat) ^ nat (bitlen m)" by simp
  moreover have "x < of_int m + 1" unfolding m_def by linarith
  ultimately have "x < 2 ^ nat (bitlen m)" by linarith
  moreover have "ilog2 x + 1 = bitlen m" using True by (simp add: ilog2_def m_def)
  moreover have "0 \<le> bitlen m" using bitlen_pos [OF m] by simp
  ultimately show ?thesis by (simp add: power_int_def)
next
  case False
  define c where "c = \<lceil>1 / x\<rceil>"
  define k where "k = bitlen (c - 1)"
  have y: "1 < 1 / x" using False assms by simp
  then have c: "0 < c - 1" by (simp add: c_def less_ceiling_iff)
  have k: "1 \<le> k" using bitlen_pos [OF c] by (simp add: k_def)
  have "2 ^ nat (k - 1) \<le> c - 1" using bitlen_bounds [OF c] by (simp add: k_def)
  then have "(of_int (2 ^ nat (k - 1)) :: rat) \<le> of_int (c - 1)" by (simp only: of_int_le_iff)
  then have "(2::rat) ^ nat (k - 1) \<le> of_int c - 1" by simp
  moreover have "of_int c - 1 < 1 / x" unfolding c_def by linarith
  ultimately have "2 ^ nat (k - 1) < 1 / x" by linarith
  then have "x < 1 / 2 ^ nat (k - 1)" using assms by (simp add: field_simps)
  moreover have "ilog2 x + 1 = - (k - 1)" using False by (simp add: ilog2_def c_def k_def)
  ultimately show ?thesis using k
    by (cases "k = 1") (simp_all add: power_int_def inverse_eq_divide power_one_over)
qed

lemma round_half_even_error: "\<bar>of_int (round_half_even z) - z\<bar> \<le> 1 / 2"
proof -
  have "of_int \<lfloor>z\<rfloor> \<le> z" "z < of_int \<lfloor>z\<rfloor> + 1" by linarith+
  then show ?thesis by (auto simp: round_half_even_def Let_def)
qed

lemma round_half_even_of_int [simp]: "round_half_even (of_int m) = m"
  by (simp add: round_half_even_def)

lemma quantum_pos: "0 < quantum x"
  by (simp add: quantum_def)

lemma fl_error: "\<bar>fl x - x\<bar> \<le> quantum x / 2"
proof (cases "x = 0")
  case True
  then show ?thesis using quantum_pos [of 0] by (simp add: fl_def)
next
  case False
  let ?q = "quantum x"
  have q: "0 < ?q" by (rule quantum_pos)
  have "fl x - x = (of_int (round_half_even (x / ?q)) - x / ?q) * ?q"
    using False q by (simp add: fl_def field_simps)
  then have "\<bar>fl x - x\<bar> = \<bar>of_int (round_half_even (x / ?q)) - x / ?q\<bar> * ?q"
    using q by (simp add: abs_mult)
  also have "\<dots> \<le> (1 / 2) * ?q"
    using q round_half_even_error [of "x / ?q"] by (intro mult_right_mono) simp_all
  finally show ?thesis by simp
qed

lemma quantum_le:
  assumes "\<bar>x\<bar> \<le> B" "x \<noteq> 0" "2 powi (- 1022) \<le> B"
  shows "quantum x \<le> B / 2 ^ 52"
proof -
  have "2 powi (ilog2 \<bar>x\<bar>) \<le> \<bar>x\<bar>" using assms(2) by (intro ilog2_lower) simp
  then have 1: "2 powi (ilog2 \<bar>x\<bar>) \<le> B" using assms(1) by simp
  have "(2::rat) powi (ilog2 \<bar>x\<bar> - 52) = 2 powi (ilog2 \<bar>x\<bar>) / 2 ^ 52"
    by (simp add: power_int_diff)
  then have a: "(2::rat) powi (ilog2 \<bar>x\<bar> - 52) \<le> B / 2 ^ 52"
    using 1 by (simp add: divide_right_mono)
  have "(2::rat) powi (- 1074) = 2 powi (- 1022) / 2 ^ 52"
    by (simp add: power_int_minus field_simps)
  then have b: "(2::rat) powi (- 1074) \<le> B / 2 ^ 52"
    using assms(3) by (simp add: divide_right_mono del: power_int_numeral_neg_numeral)
  show ?thesis using a b by (simp add: quantum_def max_def)
qed

lemma fl_error_bound:
  assumes "\<bar>x\<bar> \<le> B" "2 powi (- 1022) \<le> B"
  shows "\<bar>fl x - x\<bar> \<le> B / 2 ^ 53"
proof (cases "x = 0")
  case True
  have "(0::rat) < 2 powi (- 1022)" by simp
  then have "0 \<le> B" using assms(2) by linarith
  then show ?thesis using True by (simp add: fl_def)
next
  case False
  have "\<bar>fl x - x\<bar> \<le> quantum x / 2" by (rule fl_error)
  also have "\<dots> \<le> (B / 2 ^ 52) / 2" using quantum_le [OF assms(1) False assms(2)] by simp
  finally show ?thesis by simp
qed

lemma ilog2_less:
  assumes "0 < x" "x < 2 powi n"
  shows "ilog2 x < n"
proof (rule ccontr)
  assume "\<not> ilog2 x < n"
  then have "(2::rat) powi n \<le> 2 powi (ilog2 x)" by (intro power_int_increasing) simp_all
  then show False using ilog2_lower [OF assms(1)] assms(2) by simp
qed

lemma ilog2_ge:
  assumes "0 < x" "2 powi n \<le> x"
  shows "n \<le> ilog2 x"
proof (rule ccontr)
  assume "\<not> n \<le> ilog2 x"
  then have "(2::rat) powi (ilog2 x + 1) \<le> 2 powi n" by (intro power_int_increasing) simp_all
  then show False using ilog2_upper [OF assms(1)] assms(2) by simp
qed

lemma fl_exact:
  assumes "\<bar>m\<bar> < 2 ^ 53" "- 1074 \<le> k"
  shows "fl (of_int m * 2 powi k) = of_int m * 2 powi k"
proof (cases "m = 0")
  case True
  then show ?thesis by (simp add: fl_def)
next
  case False
  let ?x = "of_int m * (2::rat) powi k"
  define j where "j = max (ilog2 \<bar>?x\<bar> - 52) (- 1074)"
  have x: "0 < \<bar>?x\<bar>" using False by simp
  have "(of_int \<bar>m\<bar> :: rat) < of_int (2 ^ 53)" using assms(1) by (simp only: of_int_less_iff)
  then have "\<bar>of_int m :: rat\<bar> < 2 powi 53" by simp
  then have "\<bar>?x\<bar> < 2 powi 53 * 2 powi k" by (simp add: abs_mult)
  then have "\<bar>?x\<bar> < 2 powi (53 + k)" by (simp add: power_int_add)
  then have "ilog2 \<bar>?x\<bar> < 53 + k" using x by (intro ilog2_less)
  then have j: "j \<le> k" using assms(2) by (simp add: j_def)
  have q: "quantum ?x = 2 powi j" by (simp add: quantum_def j_def)
  have "(2::rat) powi k = 2 powi (k - j) * 2 powi j" by (simp flip: power_int_add)
  also have "(2::rat) powi (k - j) = of_int (2 ^ nat (k - j))" using j by (simp add: power_int_def)
  finally have k: "(2::rat) powi k = of_int (2 ^ nat (k - j)) * 2 powi j" .
  have "?x / 2 powi j = of_int (m * 2 ^ nat (k - j))" by (subst k) simp
  then have "round_half_even (?x / quantum ?x) = m * 2 ^ nat (k - j)"
    by (simp only: q round_half_even_of_int)
  then have "fl ?x = of_int (m * 2 ^ nat (k - j)) * 2 powi j"
    using False by (simp add: fl_def q)
  also have "\<dots> = ?x" by (simp add: k)
  finally show ?thesis .
qed

lemma fl_of_int: "\<bar>m\<bar> < 2 ^ 53 \<Longrightarrow> fl (of_int m) = of_int m"
  using fl_exact [of m 0] by simp

lemma fl_numeral: "(numeral k :: int) < 2 ^ 53 \<Longrightarrow> fl (numeral k) = numeral k"
  using fl_of_int [of "numeral k"] by simp

lemma fl_0 [simp]: "fl 0 = 0"
  by (simp add: fl_def)

lemma fl_1 [simp]: "fl 1 = 1"
  using fl_of_int [of 1] by simp

lemma Math_random_le:
  assumes "Math_random r"
  shows "r \<le> 1 - 1 / 2 ^ 53"
proof (cases "r < 1 / 2")
  case True
  have "(1::rat) / 2 \<le> 1 - 1 / 2 ^ 53" by simp
  then show ?thesis using True by linarith
next
  case False
  from assms have r: "0 \<le> r" "r < 1" "fl r = r" by (simp_all add: Math_random_def)
  have pos: "0 < r" using False by simp
  have "ilog2 r < 0" using pos r(2) by (intro ilog2_less) simp_all
  moreover have "- 1 \<le> ilog2 r" using pos False by (intro ilog2_ge) simp_all
  ultimately have e: "ilog2 r = - 1" by simp
  have q: "quantum r = 1 / 2 ^ 53" using pos e by (simp add: quantum_def)
  define M where "M = round_half_even (r / quantum r)"
  have rM: "r = of_int M / 2 ^ 53" using r(3) pos by (simp add: fl_def M_def q)
  then have "(of_int M :: rat) < of_int (2 ^ 53)" using r(2) by simp
  then have "M < 2 ^ 53" by (simp only: of_int_less_iff)
  then have "M \<le> 2 ^ 53 - 1" by simp
  then have "(of_int M :: rat) \<le> of_int (2 ^ 53 - 1)" by (simp only: of_int_le_iff)
  then have "(of_int M :: rat) \<le> 2 ^ 53 - 1" by simp
  then have "of_int M / 2 ^ 53 \<le> ((2::rat) ^ 53 - 1) / 2 ^ 53" by (intro divide_right_mono) simp_all
  then show ?thesis by (subst rM) (simp add: diff_divide_distrib)
qed

section \<open>Rounding is monotone and idempotent\<close>

lemma round_half_even_mono:
  assumes "z \<le> w"
  shows "round_half_even z \<le> round_half_even w"
proof (cases "\<lfloor>z\<rfloor> = \<lfloor>w\<rfloor>")
  case True
  then show ?thesis using assms by (auto simp: round_half_even_def Let_def)
next
  case False
  then have "\<lfloor>z\<rfloor> < \<lfloor>w\<rfloor>" using floor_mono [OF assms] by simp
  moreover have "round_half_even z \<le> \<lfloor>z\<rfloor> + 1" by (simp add: round_half_even_def Let_def)
  moreover have "\<lfloor>w\<rfloor> \<le> round_half_even w" by (simp add: round_half_even_def Let_def)
  ultimately show ?thesis by linarith
qed

lemma round_half_even_minus: "round_half_even (- z) = - round_half_even z"
proof (cases "z = of_int \<lfloor>z\<rfloor>")
  case True
  define m where "m = \<lfloor>z\<rfloor>"
  have z: "z = of_int m" using True by (simp add: m_def)
  have "round_half_even (- z) = round_half_even (of_int (- m))" by (simp add: z)
  also have "\<dots> = - m" by (rule round_half_even_of_int)
  also have "\<dots> = - round_half_even z" by (simp add: z)
  finally show ?thesis .
next
  case False
  then have "of_int \<lfloor>z\<rfloor> \<noteq> z" by (rule not_sym)
  then have "of_int \<lfloor>z\<rfloor> < z" by (rule le_neq_trans [OF of_int_floor_le])
  moreover have "z < of_int \<lfloor>z\<rfloor> + 1" by linarith
  ultimately have f: "\<lfloor>- z\<rfloor> = - \<lfloor>z\<rfloor> - 1" by (intro floor_unique) simp_all
  show ?thesis
    by (auto simp: round_half_even_def Let_def f)
qed

lemma quantum_minus [simp]: "quantum (- x) = quantum x"
  by (simp add: quantum_def)

lemma fl_minus: "fl (- x) = - fl x"
  by (simp add: fl_def round_half_even_minus)

lemma fl_nonneg:
  assumes "0 \<le> x"
  shows "0 \<le> fl x"
proof -
  have "0 \<le> x / quantum x" using assms quantum_pos [of x] by simp
  then have "round_half_even 0 \<le> round_half_even (x / quantum x)" by (rule round_half_even_mono)
  then have "0 \<le> round_half_even (x / quantum x)" using round_half_even_of_int [of 0] by simp
  then show ?thesis using quantum_pos [of x] by (simp add: fl_def)
qed

lemma fl_mono_pos:
  assumes "0 < x" "x \<le> y"
  shows "fl x \<le> fl y"
proof -
  have y: "0 < y" using assms by simp
  define ex where "ex = ilog2 x"
  define ey where "ey = ilog2 y"
  define jx where "jx = max (ex - 52) (- 1074)"
  define jy where "jy = max (ey - 52) (- 1074)"
  have qx: "quantum x = 2 powi jx" using assms(1) by (simp add: quantum_def jx_def ex_def)
  have qy: "quantum y = 2 powi jy" using y by (simp add: quantum_def jy_def ey_def)
  have fx: "fl x = of_int (round_half_even (x / 2 powi jx)) * 2 powi jx"
    using assms(1) by (simp add: fl_def qx)
  have fy: "fl y = of_int (round_half_even (y / 2 powi jy)) * 2 powi jy"
    using y by (simp add: fl_def qy)
  have "2 powi ex \<le> x" unfolding ex_def by (rule ilog2_lower [OF assms(1)])
  then have "2 powi ex \<le> y" using assms(2) by simp
  then have exy: "ex \<le> ey" unfolding ey_def by (rule ilog2_ge [OF y])
  show ?thesis
  proof (cases "jx = jy")
    case True
    have "x / 2 powi jy \<le> y / 2 powi jy" by (rule divide_right_mono [OF assms(2)]) simp
    then have "round_half_even (x / 2 powi jy) \<le> round_half_even (y / 2 powi jy)"
      by (rule round_half_even_mono)
    then have "(of_int (round_half_even (x / 2 powi jy)) :: rat) \<le>
        of_int (round_half_even (y / 2 powi jy))"
      by (simp only: of_int_le_iff)
    then show ?thesis unfolding fx fy True by (rule mult_right_mono) simp
  next
    case False
    then have lt: "ex < ey" "jx < ey - 52" "jy = ey - 52"
      using exy by (auto simp: jx_def jy_def)
    define u where "u = max (ex + 1) jx"
    have uey: "u \<le> ey" using lt by (simp add: u_def)
    have "x < 2 powi (ex + 1)" unfolding ex_def by (rule ilog2_upper [OF assms(1)])
    also have "(2::rat) powi (ex + 1) \<le> 2 powi u" by (rule power_int_increasing) (simp_all add: u_def)
    finally have xu: "x \<le> 2 powi u" by simp
    have "(2::rat) powi u = 2 powi (u - jx) * 2 powi jx" by (simp flip: power_int_add)
    also have "(2::rat) powi (u - jx) = of_int (2 ^ nat (u - jx))"
      by (simp add: power_int_def u_def)
    finally have u: "(2::rat) powi u = of_int (2 ^ nat (u - jx)) * 2 powi jx" .
    have "x / 2 powi jx \<le> 2 powi u / 2 powi jx" by (rule divide_right_mono [OF xu]) simp
    also have "\<dots> = of_int (2 ^ nat (u - jx))" by (simp add: u)
    finally have "round_half_even (x / 2 powi jx) \<le> round_half_even (of_int (2 ^ nat (u - jx)))"
      by (rule round_half_even_mono)
    then have "round_half_even (x / 2 powi jx) \<le> 2 ^ nat (u - jx)"
      by (simp only: round_half_even_of_int)
    then have "(of_int (round_half_even (x / 2 powi jx)) :: rat) \<le> of_int (2 ^ nat (u - jx))"
      by (simp only: of_int_le_iff)
    then have "fl x \<le> of_int (2 ^ nat (u - jx)) * 2 powi jx"
      unfolding fx by (rule mult_right_mono) simp
    then have 1: "fl x \<le> 2 powi u" by (simp only: u)
    have 2: "(2::rat) powi u \<le> 2 powi ey" by (rule power_int_increasing [OF uey]) simp
    have "(2::rat) powi ey = 2 powi (52 + jy)" by (simp add: lt(3))
    also have "\<dots> = 2 powi 52 * 2 powi jy" by (rule power_int_add) simp
    finally have e: "(2::rat) powi ey = of_int (2 ^ 52) * 2 powi jy" by simp
    have "2 powi ey \<le> y" unfolding ey_def by (rule ilog2_lower [OF y])
    then have "2 powi ey / 2 powi jy \<le> y / 2 powi jy" by (rule divide_right_mono) simp
    then have "of_int (2 ^ 52) \<le> y / 2 powi jy" by (simp add: e)
    then have "round_half_even (of_int (2 ^ 52)) \<le> round_half_even (y / 2 powi jy)"
      by (rule round_half_even_mono)
    then have "2 ^ 52 \<le> round_half_even (y / 2 powi jy)"
      by (simp only: round_half_even_of_int)
    then have "(of_int (2 ^ 52) :: rat) \<le> of_int (round_half_even (y / 2 powi jy))"
      by (simp only: of_int_le_iff)
    then have "of_int (2 ^ 52) * 2 powi jy \<le> fl y"
      unfolding fy by (rule mult_right_mono) simp
    then have 3: "2 powi ey \<le> fl y" by (simp only: e)
    from 1 2 3 show ?thesis by linarith
  qed
qed

lemma fl_mono:
  assumes "x \<le> y"
  shows "fl x \<le> fl y"
proof -
  consider "0 < x" | "x \<le> 0" "0 \<le> y" | "y < 0" by linarith
  then show ?thesis
  proof cases
    case 1
    then show ?thesis using assms by (rule fl_mono_pos)
  next
    case 2
    have "0 \<le> fl (- x)" using 2(1) by (intro fl_nonneg) simp
    then have "fl x \<le> 0" by (simp add: fl_minus)
    moreover have "0 \<le> fl y" using 2(2) by (rule fl_nonneg)
    ultimately show ?thesis by simp
  next
    case 3
    have "fl (- y) \<le> fl (- x)" using 3 assms by (intro fl_mono_pos) simp_all
    then show ?thesis by (simp add: fl_minus)
  qed
qed

lemma fl_idem: "fl (fl x) = fl x"
proof (cases "x = 0")
  case True
  then show ?thesis by simp
next
  case False
  define e where "e = ilog2 \<bar>x\<bar>"
  define j where "j = max (e - 52) (- 1074)"
  define z where "z = x / 2 powi j"
  define R where "R = round_half_even z"
  have q: "quantum x = 2 powi j" by (simp add: quantum_def j_def e_def)
  have f: "fl x = of_int R * 2 powi j" using False by (simp add: fl_def q R_def z_def)
  have x: "0 < \<bar>x\<bar>" using False by simp
  have "\<bar>x\<bar> < 2 powi (e + 1)" unfolding e_def by (rule ilog2_upper [OF x])
  also have "(2::rat) powi (e + 1) \<le> 2 powi (53 + j)" by (rule power_int_increasing) (simp_all add: j_def)
  also have "(2::rat) powi (53 + j) = of_int (2 ^ 53) * 2 powi j" by (simp add: power_int_add)
  finally have "\<bar>x\<bar> / 2 powi j < of_int (2 ^ 53) * 2 powi j / 2 powi j"
    by (rule divide_strict_right_mono) simp
  then have "\<bar>x\<bar> / 2 powi j < of_int (2 ^ 53)" by simp
  moreover have "\<bar>z\<bar> = \<bar>x\<bar> / 2 powi j" by (simp add: z_def)
  ultimately have zb: "z \<le> of_int (2 ^ 53)" "of_int (- (2 ^ 53)) \<le> z"
    by (simp_all add: abs_if split: if_splits)
  have "round_half_even z \<le> round_half_even (of_int (2 ^ 53))"
    by (rule round_half_even_mono [OF zb(1)])
  moreover have "round_half_even (of_int (- (2 ^ 53))) \<le> round_half_even z"
    by (rule round_half_even_mono [OF zb(2)])
  ultimately have R: "R \<le> 2 ^ 53" "- (2 ^ 53) \<le> R"
    unfolding R_def by (simp_all only: round_half_even_of_int)
  have j: "- 1074 \<le> j" by (simp add: j_def)
  consider "\<bar>R\<bar> < 2 ^ 53" | "R = 2 ^ 53" | "R = - (2 ^ 53)" using R by linarith
  then show ?thesis
  proof cases
    case 1
    then show ?thesis unfolding f using j by (rule fl_exact)
  next
    case 2
    have "of_int R * (2::rat) powi j = of_int 1 * 2 powi (53 + j)" by (simp add: 2 power_int_add)
    moreover have "fl (of_int 1 * 2 powi (53 + j)) = of_int 1 * 2 powi (53 + j)"
      using j by (intro fl_exact) simp_all
    ultimately show ?thesis unfolding f by simp
  next
    case 3
    have "of_int R * (2::rat) powi j = of_int (- 1) * 2 powi (53 + j)" by (simp add: 3 power_int_add)
    moreover have "fl (of_int (- 1) * 2 powi (53 + j)) = of_int (- 1) * 2 powi (53 + j)"
      using j by (intro fl_exact) simp_all
    ultimately show ?thesis unfolding f by simp
  qed
qed

section \<open>A random index stays below the length\<close>

lemma fl_random_less:
  assumes "Math_random r" "0 < n" "n < 2 ^ 53"
  shows "fl (r * of_nat n) < of_nat n"
proof (cases "r * of_nat n = 0")
  case True
  then show ?thesis using assms(2) by (simp add: fl_def)
next
  case False
  let ?x = "r * of_nat n"
  from assms(1) have r0: "0 \<le> r" by (simp add: Math_random_def)
  have "r \<noteq> 0" using False by auto
  then have "0 < r" using r0 by simp
  then have x: "0 < ?x" using assms(2) by simp
  have r1: "r \<le> 1 - 1 / 2 ^ 53" by (rule Math_random_le [OF assms(1)])
  have n: "(0::rat) < of_nat n" using assms(2) by simp
  have xle: "?x \<le> (1 - 1 / 2 ^ 53) * of_nat n" using r1 n by (intro mult_right_mono) simp_all
  moreover have "(1 - 1 / 2 ^ 53) * (of_nat n :: rat) < 1 * of_nat n"
    using n by (intro mult_strict_right_mono) simp_all
  ultimately have xn: "?x < of_nat n" by simp
  define j where "j = max (ilog2 ?x - 52) (- 1074)"
  have q: "quantum ?x = 2 powi j" using x by (simp add: quantum_def j_def)
  have "(of_nat n :: rat) < of_nat (2 ^ 53)" using assms(3) by (simp only: of_nat_less_iff)
  then have "?x < 2 powi 53" using xn by simp
  then have e: "ilog2 ?x < 53" using x by (intro ilog2_less)
  then have j: "j \<le> 0" by (simp add: j_def)
  define M where "M = int n * 2 ^ nat (- j)"
  have "(2::rat) powi (- j) = of_int (2 ^ nat (- j))" using j by (simp add: power_int_def)
  then have "of_nat n * 2 powi (- j) = (of_int M :: rat)"
    by (simp add: M_def)
  moreover have "of_nat n / 2 powi j = (of_nat n :: rat) * 2 powi (- j)"
    by (simp only: power_int_minus divide_inverse)
  ultimately have M: "of_nat n / 2 powi j = (of_int M :: rat)" by simp
  have Mq: "(of_int M :: rat) * 2 powi j = of_nat n" by (simp flip: M)
  have big: "(2::rat) powi (52 + j) < of_nat n"
  proof (cases "- 1074 \<le> ilog2 ?x - 52")
    case True
    then have "52 + j = ilog2 ?x" by (simp add: j_def)
    then show ?thesis using ilog2_lower [OF x] xn by simp
  next
    case False
    then have "j = - 1074" by (simp add: j_def)
    moreover have "(2::rat) powi (- 1022) < 2 powi 0" by (rule power_int_strict_increasing) simp_all
    then have "(2::rat) powi (- 1022) < 1" by (simp only: power_int_0_right)
    moreover have "(1::rat) \<le> of_nat n" using assms(2) by simp
    ultimately show ?thesis by simp
  qed
  have pj: "(0::rat) < 2 powi j" by simp
  have "(2::rat) ^ 52 = 2 powi (52 + j) / 2 powi j" by (simp add: power_int_add)
  also have "\<dots> < of_nat n / 2 powi j" using big pj by (simp add: divide_strict_right_mono)
  finally have M52: "(2::rat) ^ 52 < of_int M" by (simp only: M)
  have "?x / 2 powi j \<le> ((1 - 1 / 2 ^ 53) * of_nat n) / 2 powi j"
    by (rule divide_right_mono [OF xle]) (simp add: less_imp_le)
  also have "\<dots> = (1 - 1 / 2 ^ 53) * (of_nat n / 2 powi j)" by simp
  also have "\<dots> = (1 - 1 / 2 ^ 53) * of_int M" by (simp only: M)
  also have "\<dots> = of_int M - of_int M / 2 ^ 53" by (simp add: algebra_simps)
  also have "\<dots> < of_int M - 1 / 2" using M52 by simp
  finally have lt: "?x / 2 powi j < of_int M - 1 / 2" .
  define R where "R = round_half_even (?x / 2 powi j)"
  have "\<bar>of_int R - ?x / 2 powi j\<bar> \<le> 1 / 2" unfolding R_def by (rule round_half_even_error)
  then have "(of_int R :: rat) < of_int M" using lt by linarith
  then have "R < M" by (simp only: of_int_less_iff)
  then have "R \<le> M - 1" by simp
  then have "(of_int R :: rat) \<le> of_int (M - 1)" by (simp only: of_int_le_iff)
  then have "of_int R * 2 powi j \<le> (of_int (M - 1) :: rat) * 2 powi j"
    using pj by (intro mult_right_mono) simp_all
  also have "\<dots> = of_int M * 2 powi j - 2 powi j" by (simp add: algebra_simps)
  also have "\<dots> = of_nat n - 2 powi j" by (simp only: Mq)
  also have "\<dots> < of_nat n" using pj by simp
  finally have "of_int R * 2 powi j < (of_nat n :: rat)" .
  moreover have "fl ?x = of_int R * 2 powi j" using False by (simp add: fl_def q R_def)
  ultimately show ?thesis by simp
qed

lemma random_index_less:
  assumes "Math_random r" "0 < n" "n < 2 ^ 53"
  shows "random_index n r < n"
proof -
  have "fl (r * of_nat n) < of_int (int n)" using fl_random_less [OF assms] by simp
  then have "\<lfloor>fl (r * of_nat n)\<rfloor> < int n" by (simp only: floor_less_iff)
  then show ?thesis using assms(2) by (simp add: random_index_def fmul_def)
qed

section \<open>The slider mappings: error bounds and monotonicity\<close>

lemma fl_error_bound_ge1:
  assumes "\<bar>x\<bar> \<le> B" "1 \<le> B"
  shows "\<bar>fl x - x\<bar> \<le> B / 2 ^ 53"
proof -
  have "(2::rat) powi (- 1022) \<le> 2 powi 0" by (rule power_int_increasing) simp_all
  then have "(2::rat) powi (- 1022) \<le> 1" by (simp only: power_int_0_right)
  then have "2 powi (- 1022) \<le> B" using assms(2) by linarith
  then show ?thesis by (rule fl_error_bound [OF assms(1)])
qed

lemma mapSpeedToDuration_unfold:
  "mapSpeedToDuration x = fsub 4000 (fmul (fdiv x 100) (fsub 4000 600))"
  by (simp add: mapSpeedToDuration_def)

lemma mapDelayToMs_unfold:
  "mapDelayToMs x = fadd 500 (fmul (fdiv x 100) (fsub 6000 500))"
  by (simp add: mapDelayToMs_def)

lemma mapSpeedToDuration_error:
  assumes "0 \<le> s" "s \<le> 100"
  shows "\<bar>mapSpeedToDuration s - (4000 - s / 100 * (4000 - 600))\<bar> \<le> 1 / 2 ^ 39"
proof -
  define a where "a = fl (s / 100)"
  define b where "b = fl (a * 3400)"
  define d where "d = fl (4000 - b)"
  have f: "mapSpeedToDuration s = d"
    by (simp add: mapSpeedToDuration_unfold fl_numeral fsub_def fmul_def fdiv_def a_def b_def d_def)
  have "\<bar>s / 100\<bar> \<le> 1" using assms by simp
  then have ea: "\<bar>a - s / 100\<bar> \<le> 1 / 2 ^ 53" unfolding a_def by (rule fl_error_bound_ge1) simp
  have a1: "\<bar>a\<bar> \<le> 1 + 1 / 2 ^ 53" using ea assms unfolding abs_le_iff by (simp; linarith?)
  have "\<bar>a * 3400\<bar> \<le> 4096" using a1 unfolding abs_le_iff by (simp; linarith?)
  then have eb: "\<bar>b - a * 3400\<bar> \<le> 4096 / 2 ^ 53" unfolding b_def by (rule fl_error_bound_ge1) simp
  have "\<bar>4000 - b\<bar> \<le> 8192" using eb a1 unfolding abs_le_iff by (simp; linarith?)
  then have ed: "\<bar>d - (4000 - b)\<bar> \<le> 8192 / 2 ^ 53" unfolding d_def by (rule fl_error_bound_ge1) simp
  have "\<bar>d - (4000 - 34 * s)\<bar> \<le> 1 / 2 ^ 39" using ea eb ed unfolding abs_le_iff by (simp; linarith?)
  then show ?thesis by (simp add: f)
qed

lemma mapDelayToMs_error:
  assumes "0 \<le> s" "s \<le> 100"
  shows "\<bar>mapDelayToMs s - (500 + s / 100 * (6000 - 500))\<bar> \<le> 1 / 2 ^ 38"
proof -
  define a where "a = fl (s / 100)"
  define b where "b = fl (a * 5500)"
  define d where "d = fl (500 + b)"
  have f: "mapDelayToMs s = d"
    by (simp add: mapDelayToMs_unfold fl_numeral fsub_def fadd_def fmul_def fdiv_def a_def b_def d_def)
  have "\<bar>s / 100\<bar> \<le> 1" using assms by simp
  then have ea: "\<bar>a - s / 100\<bar> \<le> 1 / 2 ^ 53" unfolding a_def by (rule fl_error_bound_ge1) simp
  have a1: "\<bar>a\<bar> \<le> 1 + 1 / 2 ^ 53" using ea assms unfolding abs_le_iff by (simp; linarith?)
  have "\<bar>a * 5500\<bar> \<le> 8192" using a1 unfolding abs_le_iff by (simp; linarith?)
  then have eb: "\<bar>b - a * 5500\<bar> \<le> 8192 / 2 ^ 53" unfolding b_def by (rule fl_error_bound_ge1) simp
  have "\<bar>500 + b\<bar> \<le> 8192" using eb a1 unfolding abs_le_iff by (simp; linarith?)
  then have ed: "\<bar>d - (500 + b)\<bar> \<le> 8192 / 2 ^ 53" unfolding d_def by (rule fl_error_bound_ge1) simp
  have "\<bar>d - (500 + 55 * s)\<bar> \<le> 1 / 2 ^ 38" using ea eb ed unfolding abs_le_iff by (simp; linarith?)
  then show ?thesis by (simp add: f)
qed

lemma mapSpeedToDuration_0: "mapSpeedToDuration 0 = 4000"
  by (simp add: mapSpeedToDuration_unfold fsub_def fmul_def fdiv_def fl_numeral)

lemma mapSpeedToDuration_100: "mapSpeedToDuration 100 = 600"
  by (simp add: mapSpeedToDuration_unfold fsub_def fmul_def fdiv_def fl_numeral)

lemma mapDelayToMs_0: "mapDelayToMs 0 = 500"
  by (simp add: mapDelayToMs_unfold fadd_def fsub_def fmul_def fdiv_def fl_numeral)

lemma mapDelayToMs_100: "mapDelayToMs 100 = 6000"
  by (simp add: mapDelayToMs_unfold fadd_def fsub_def fmul_def fdiv_def fl_numeral)

lemma mapSpeedToDuration_decreasing:
  assumes "0 \<le> s" "s + 1 \<le> t" "t \<le> 100"
  shows "mapSpeedToDuration t < mapSpeedToDuration s"
proof -
  have "\<bar>mapSpeedToDuration s - (4000 - s / 100 * (4000 - 600))\<bar> \<le> 1 / 2 ^ 39"
    using assms by (intro mapSpeedToDuration_error) simp_all
  moreover have "\<bar>mapSpeedToDuration t - (4000 - t / 100 * (4000 - 600))\<bar> \<le> 1 / 2 ^ 39"
    using assms by (intro mapSpeedToDuration_error) simp_all
  ultimately show ?thesis using assms(2) unfolding abs_le_iff by (simp; linarith?)
qed

lemma mapDelayToMs_increasing:
  assumes "0 \<le> s" "s + 1 \<le> t" "t \<le> 100"
  shows "mapDelayToMs s < mapDelayToMs t"
proof -
  have "\<bar>mapDelayToMs s - (500 + s / 100 * (6000 - 500))\<bar> \<le> 1 / 2 ^ 38"
    using assms by (intro mapDelayToMs_error) simp_all
  moreover have "\<bar>mapDelayToMs t - (500 + t / 100 * (6000 - 500))\<bar> \<le> 1 / 2 ^ 38"
    using assms by (intro mapDelayToMs_error) simp_all
  ultimately show ?thesis using assms(2) unfolding abs_le_iff by (simp; linarith?)
qed

section \<open>Which draws give which index\<close>

lemma fl_quarters:
  assumes "\<bar>m\<bar> < 2 ^ 53"
  shows "fl (of_int m / 4) = of_int m / 4"
proof -
  have "(2::rat) powi (- 2) = 1 / 4" by (simp add: power_int_minus)
  then have "of_int m * (2::rat) powi (- 2) = of_int m / 4" by simp
  then show ?thesis using fl_exact [OF assms, of "- 2"] by simp
qed

lemma random_index_above:
  assumes "of_nat prev + 1 \<le> r * of_nat n" and "prev < 2 ^ 32"
  shows "prev < random_index n r"
proof -
  have "\<bar>int prev + 1\<bar> < 2 ^ 53" using assms(2) by simp
  then have "fl (of_int (int prev + 1)) = of_int (int prev + 1)" by (rule fl_of_int)
  moreover have "fl (of_int (int prev + 1)) \<le> fl (r * of_nat n)"
    using assms(1) by (intro fl_mono) simp
  ultimately have "of_int (int prev + 1) \<le> fl (r * of_nat n)" by simp
  then have "int prev + 1 \<le> \<lfloor>fl (r * of_nat n)\<rfloor>" by (simp only: le_floor_iff)
  then show ?thesis by (simp add: random_index_def fmul_def)
qed

lemma random_index_below:
  assumes "0 \<le> r" and "r < 1" and "n < 2 ^ 32"
    and "r * of_nat n \<le> of_nat prev - 1 / 2 ^ 20"
  shows "random_index n r < prev"
proof -
  let ?x = "r * of_nat n"
  have "(of_nat n :: rat) < of_nat (2 ^ 32)" using assms(3) by (simp only: of_nat_less_iff)
  then have n: "(of_nat n :: rat) < 2 ^ 32" by simp
  have x0: "0 \<le> ?x" using assms(1) by simp
  have "?x \<le> 1 * of_nat n" using assms(2) by (intro mult_right_mono) simp_all
  then have "\<bar>?x\<bar> \<le> 2 ^ 32" using x0 n by simp
  then have "\<bar>fl ?x - ?x\<bar> \<le> 2 ^ 32 / 2 ^ 53" by (rule fl_error_bound_ge1) simp
  then have "fl ?x < of_nat prev" using assms(4) unfolding abs_le_iff by (simp; linarith?)
  then have "fl ?x < of_int (int prev)" by simp
  then have "\<lfloor>fl ?x\<rfloor> < int prev" by (simp only: floor_less_iff)
  moreover have "0 < prev"
  proof (rule ccontr)
    assume "\<not> 0 < prev"
    then have "?x < 0" using assms(4) by simp
    then show False using x0 by simp
  qed
  ultimately show ?thesis by (simp add: random_index_def fmul_def)
qed

lemma random_index_between:
  assumes "of_nat j + 1 / 4 \<le> r * of_nat n" and "r * of_nat n \<le> of_nat j + 3 / 4"
    and "j < 2 ^ 32"
  shows "random_index n r = j"
proof -
  let ?x = "r * of_nat n"
  have lo: "of_nat j + 1 / 4 = (of_int (4 * int j + 1) / 4 :: rat)" by simp
  have hi: "of_nat j + 3 / 4 = (of_int (4 * int j + 3) / 4 :: rat)" by simp
  have "\<bar>4 * int j + 1\<bar> < 2 ^ 53" using assms(3) by simp
  then have "fl (of_int (4 * int j + 1) / 4) = of_int (4 * int j + 1) / 4" by (rule fl_quarters)
  then have e1: "fl (of_nat j + 1 / 4) = of_nat j + 1 / 4" by (simp only: lo [symmetric])
  have "\<bar>4 * int j + 3\<bar> < 2 ^ 53" using assms(3) by simp
  then have "fl (of_int (4 * int j + 3) / 4) = of_int (4 * int j + 3) / 4" by (rule fl_quarters)
  then have e2: "fl (of_nat j + 3 / 4) = of_nat j + 3 / 4" by (simp only: hi [symmetric])
  note e = e1 e2
  have "fl (of_nat j + 1 / 4) \<le> fl ?x" by (rule fl_mono [OF assms(1)])
  moreover have "fl ?x \<le> fl (of_nat j + 3 / 4)" by (rule fl_mono [OF assms(2)])
  ultimately have "of_int (int j) \<le> fl ?x" "fl ?x < of_int (int j) + 1"
    unfolding e by simp_all
  then have "\<lfloor>fl ?x\<rfloor> = int j" by (rule floor_unique)
  then show ?thesis by (simp add: random_index_def fmul_def)
qed

lemma random_index_target:
  assumes "j < n" and "n < 2 ^ 32"
  shows "Math_random (fl ((of_nat j + 1 / 2) / of_nat n))"
    and "random_index n (fl ((of_nat j + 1 / 2) / of_nat n)) = j"
proof -
  let ?y = "(of_nat j + 1 / 2) / (of_nat n :: rat)"
  let ?r = "fl ?y"
  have n0: "(0::rat) < of_nat n" using assms(1) by simp
  have "(of_nat n :: rat) < of_nat (2 ^ 32)" using assms(2) by (simp only: of_nat_less_iff)
  then have n: "(of_nat n :: rat) < 2 ^ 32" by simp
  have jn: "(of_nat j :: rat) + 1 \<le> of_nat n"
    using assms(1) by (simp flip: of_nat_Suc add: of_nat_le_iff)
  have y0: "0 \<le> ?y" by simp
  have "?y \<le> of_nat n / of_nat n" using jn n0 by (intro divide_right_mono) simp_all
  then have y1: "?y \<le> 1" using n0 by simp
  have "\<bar>?y\<bar> \<le> 1" using y0 y1 by simp
  then have err: "\<bar>?r - ?y\<bar> \<le> 1 / 2 ^ 53" by (rule fl_error_bound_ge1) simp
  have yn: "?y * of_nat n = of_nat j + 1 / 2" using n0 by simp
  have "?r * of_nat n - ?y * of_nat n = (?r - ?y) * of_nat n"
    by (simp only: left_diff_distrib)
  then have "\<bar>?r * of_nat n - ?y * of_nat n\<bar> = \<bar>?r - ?y\<bar> * \<bar>of_nat n :: rat\<bar>"
    by (simp only: abs_mult)
  also have "\<dots> = \<bar>?r - ?y\<bar> * of_nat n" by (simp only: abs_of_nat)
  also have "\<dots> \<le> (1 / 2 ^ 53) * of_nat n" using err by (intro mult_right_mono) simp_all
  also have "\<dots> \<le> (1 / 2 ^ 53) * 2 ^ 32" using n by (intro mult_left_mono) simp_all
  also have "\<dots> \<le> 1 / 4" by simp
  finally have "\<bar>?r * of_nat n - (of_nat j + 1 / 2)\<bar> \<le> 1 / 4" unfolding yn .
  then have "?r * of_nat n - (of_nat j + 1 / 2) \<le> 1 / 4"
    and "- (?r * of_nat n - (of_nat j + 1 / 2)) \<le> 1 / 4"
    by (simp_all only: abs_le_iff)
  then have b: "of_nat j + 1 / 4 \<le> ?r * of_nat n" "?r * of_nat n \<le> of_nat j + 3 / 4"
    by linarith+
  have j: "j < 2 ^ 32" using assms by simp
  show "random_index n ?r = j" by (rule random_index_between [OF b j])
  have r0: "0 \<le> ?r" by (rule fl_nonneg [OF y0])
  have "?r * of_nat n < of_nat n" using b(2) jn by linarith
  then have "?r * of_nat n < 1 * of_nat n" by (simp only: mult_1)
  then have r1: "?r < 1" using n0 by (simp only: mult_less_cancel_right_pos)
  show "Math_random ?r" using r0 r1 by (simp add: Math_random_def fl_idem)
qed

lemma random_index_stays:
  assumes "of_nat prev \<le> r * of_nat n" and "r * of_nat n \<le> of_nat prev + 1 / 2"
    and "prev < 2 ^ 32"
  shows "random_index n r = prev"
proof -
  let ?x = "r * of_nat n"
  have hi: "of_nat prev + 1 / 2 = (of_int (4 * int prev + 2) / 4 :: rat)" by simp
  have "\<bar>int prev\<bar> < 2 ^ 53" using assms(3) by simp
  then have "fl (of_int (int prev)) = of_int (int prev)" by (rule fl_of_int)
  then have e1: "fl (of_nat prev) = of_nat prev" by simp
  have "\<bar>4 * int prev + 2\<bar> < 2 ^ 53" using assms(3) by simp
  then have "fl (of_int (4 * int prev + 2) / 4) = of_int (4 * int prev + 2) / 4" by (rule fl_quarters)
  then have e2: "fl (of_nat prev + 1 / 2) = of_nat prev + 1 / 2" by (simp only: hi [symmetric])
  note e = e1 e2
  have "fl (of_nat prev) \<le> fl ?x" by (rule fl_mono [OF assms(1)])
  moreover have "fl ?x \<le> fl (of_nat prev + 1 / 2)" by (rule fl_mono [OF assms(2)])
  ultimately have "of_int (int prev) \<le> fl ?x" "fl ?x < of_int (int prev) + 1"
    unfolding e by simp_all
  then have "\<lfloor>fl ?x\<rfloor> = int prev" by (rule floor_unique)
  then show ?thesis by (simp add: random_index_def fmul_def)
qed

section \<open>The reroll loop\<close>

lemma reroll_Some:
  assumes "reroll n prev nxt rs = Some y"
  shows "y \<noteq> prev \<and> (y = nxt \<or> y \<in> random_index n ` sset rs)"
proof (rule reroll.raw_induct
    [where P = "\<lambda>n prev nxt rs y. y \<noteq> prev \<and> (y = nxt \<or> y \<in> random_index n ` sset rs)"])
  show "reroll n prev nxt rs = Some y" by (rule assms)
next
  fix f :: "nat \<Rightarrow> nat \<Rightarrow> nat \<Rightarrow> number stream \<Rightarrow> nat option"
  fix len prev nxt rs y
  assume IH: "\<And>a b c d z. f a b c d = Some z \<Longrightarrow>
      z \<noteq> b \<and> (z = c \<or> z \<in> random_index a ` sset d)"
    and eq: "(if nxt = prev then f len prev (random_index len (shd rs)) (stl rs) else Some nxt) = Some y"
  show "y \<noteq> prev \<and> (y = nxt \<or> y \<in> random_index len ` sset rs)"
  proof (cases "nxt = prev")
    case True
    with eq have "f len prev (random_index len (shd rs)) (stl rs) = Some y" by simp
    from IH [OF this] show ?thesis
      by (auto simp: shd_sset dest: stl_sset)
  next
    case False
    with eq show ?thesis by simp
  qed
qed

lemma reroll_step:
  "reroll n prev prev rs =
     (if random_index n (shd rs) = prev then reroll n prev prev (stl rs)
      else Some (random_index n (shd rs)))"
  by (subst reroll.simps, simp, subst reroll.simps, simp)

lemma reroll_returns:
  assumes "random_index n (rs !! k) \<noteq> prev"
  shows "\<exists>y. reroll n prev prev rs = Some y"
  using assms
proof (induction k arbitrary: rs)
  case 0
  then show ?case by (subst reroll_step) simp
next
  case (Suc k)
  then have "\<exists>y. reroll n prev prev (stl rs) = Some y" by simp
  then show ?case by (subst reroll_step) simp
qed

lemma reroll_None:
  assumes "\<forall>r\<in>sset rs. random_index n r = prev"
  shows "reroll n prev prev rs = None"
proof (cases "reroll n prev prev rs")
  case None
  then show ?thesis .
next
  case (Some y)
  from reroll_Some [OF this] assms show ?thesis by auto
qed

section \<open>Uploads and the index invariant\<close>





lemma img_onload_complete:
  assumes "b < length (uploads s)"
    and "loadedCount (uploads s ! b) + 1 = files_length (uploads s ! b)"
  shows "img_onload s b =
     s\<lparr>uploads := (uploads s)[b := (uploads s ! b)\<lparr>loadedCount := loadedCount (uploads s ! b) + 1\<rparr>],
       images := images s @ newEntries (uploads s ! b),
       isPlaying := (if isPlaying_seen (uploads s ! b) then isPlaying s else True)\<rparr>"
  using assms by (simp add: img_onload_def Let_def)

lemma run_append:
  "run s (es @ es') = (case run s es of None \<Rightarrow> None | Some t \<Rightarrow> run t es')"
  by (induction es arbitrary: s) (simp_all split: option.splits)


lemma step_images_length:
  assumes "step s e = Some t"
  shows "length (images s) \<le> length (images t)"
  using assms
  by (cases e)
    (auto simp: step_def handleImageUpload_def img_onload_def advance_timeout_def Let_def
      split: option.splits if_splits prod.splits)

lemma run_images_length:
  assumes "run s es = Some t"
  shows "length (images s) \<le> length (images t)"
  using assms
proof (induction es arbitrary: s)
  case Nil
  then show ?case by simp
next
  case (Cons e es)
  then obtain s' where s': "step s e = Some s'" "run s' es = Some t"
    by (auto split: option.splits)
  from step_images_length [OF s'(1)] Cons.IH [OF s'(2)] show ?case by simp
qed

lemma updater_in_range:
  assumes "setCurrentIndex_updater n rs prev = Some y" "prev < n" "n < 2 ^ 53"
    and "\<forall>r\<in>sset rs. Math_random r"
  shows "y < n"
proof (cases "n \<le> 1")
  case True
  then show ?thesis using assms by (simp add: setCurrentIndex_updater_def)
next
  case False
  then have "reroll n prev prev rs = Some y" using assms(1) by (simp add: setCurrentIndex_updater_def)
  from reroll_Some [OF this] obtain r where "r \<in> sset rs" "y = random_index n r" by auto
  then show ?thesis using assms(3,4) False random_index_less [of r n] by auto
qed

lemma step_index_ok:
  assumes "step s e = Some t" "index_ok s" "random_draws_ok e" "length (images s) < 2 ^ 53"
  shows "index_ok t"
proof (cases e)
  case (AdvanceTimeout rs)
  show ?thesis
  proof (cases "\<not> isPlaying s \<or> length (images s) \<le> 1")
    case True
    then show ?thesis using assms AdvanceTimeout by (simp add: step_def advance_timeout_def)
  next
    case False
    then obtain y where y: "setCurrentIndex_updater (length (images s)) rs (currentIndex s) = Some y"
      and t: "t = s\<lparr>currentIndex := y\<rparr>"
      using assms(1) AdvanceTimeout by (auto simp: step_def advance_timeout_def)
    have "currentIndex s < length (images s)"
      using assms(2) False by (auto simp: index_ok_def split: if_splits)
    from updater_in_range [OF y this assms(4)] assms(3) AdvanceTimeout
    have "y < length (images s)" by (simp add: random_draws_ok_def)
    then show ?thesis using False by (auto simp: t index_ok_def)
  qed
qed (use assms in \<open>auto simp: step_def index_ok_def handleImageUpload_def img_onload_def Let_def
      split: option.splits if_splits prod.splits\<close>)

lemma run_index_ok:
  assumes "run s es = Some t" "index_ok s" "\<forall>e\<in>set es. random_draws_ok e"
    and "length (images t) < 2 ^ 53"
  shows "index_ok t"
  using assms
proof (induction es arbitrary: s)
  case Nil
  then show ?case by simp
next
  case (Cons e es)
  then obtain s' where s': "step s e = Some s'" "run s' es = Some t"
    by (auto split: option.splits)
  have "length (images s) \<le> length (images t)"
    using Cons.prems(1) by (rule run_images_length)
  then have "length (images s) < 2 ^ 53" using Cons.prems(4) by simp
  then have "index_ok s'" using s'(1) Cons.prems by (intro step_index_ok [of s e s']) simp_all
  then show ?case using s'(2) Cons.prems by (intro Cons.IH) simp_all
qed

section \<open>The slider mappings: results\<close>

lemma mapSpeedToDuration_antimono:
  assumes "x \<le> y"
  shows "mapSpeedToDuration y \<le> mapSpeedToDuration x"
proof -
  have "x / 100 \<le> y / 100" using assms by simp
  then have "fdiv x 100 \<le> fdiv y 100" unfolding fdiv_def by (rule fl_mono)
  then have "fdiv x 100 * 3400 \<le> fdiv y 100 * 3400" by simp
  then have "fmul (fdiv x 100) 3400 \<le> fmul (fdiv y 100) 3400" unfolding fmul_def by (rule fl_mono)
  then have "4000 - fmul (fdiv y 100) 3400 \<le> 4000 - fmul (fdiv x 100) 3400" by simp
  then have "fsub 4000 (fmul (fdiv y 100) 3400) \<le> fsub 4000 (fmul (fdiv x 100) 3400)"
    unfolding fsub_def by (rule fl_mono)
  moreover have "fsub 4000 600 = 3400" by (simp add: fsub_def fl_numeral)
  ultimately show ?thesis by (simp add: mapSpeedToDuration_unfold)
qed

lemma mapDelayToMs_mono:
  assumes "x \<le> y"
  shows "mapDelayToMs x \<le> mapDelayToMs y"
proof -
  have "x / 100 \<le> y / 100" using assms by simp
  then have "fdiv x 100 \<le> fdiv y 100" unfolding fdiv_def by (rule fl_mono)
  then have "fdiv x 100 * 5500 \<le> fdiv y 100 * 5500" by simp
  then have "fmul (fdiv x 100) 5500 \<le> fmul (fdiv y 100) 5500" unfolding fmul_def by (rule fl_mono)
  then have "500 + fmul (fdiv x 100) 5500 \<le> 500 + fmul (fdiv y 100) 5500" by simp
  then have "fadd 500 (fmul (fdiv x 100) 5500) \<le> fadd 500 (fmul (fdiv y 100) 5500)"
    unfolding fadd_def by (rule fl_mono)
  moreover have "fsub 6000 500 = 5500" by (simp add: fsub_def fl_numeral)
  ultimately show ?thesis by (simp add: mapDelayToMs_unfold)
qed

text \<open>
  At slider position 58 the binary64 result is one unit in the last place above the
  rational value \<open>2028\<close> of the formula: the equalities below are equalities of binary64
  arithmetic, and the error bound is not vacuous.
\<close>

lemma mapSpeedToDuration_58: "mapSpeedToDuration 58 = 2028 + 1 / 2 ^ 42"
  by code_simp

text \<open>
  C4. For every speed in \<open>[0, 100]\<close>, \<open>mapSpeedToDuration speed\<close> is
  \<open>4000 - (speed / 100) * (4000 - 600)\<close> evaluated in binary64 arithmetic, which lies within
  \<open>2^-39\<close> of the rational value of that formula; \<open>mapSpeedToDuration 0 = 4000\<close>,
  \<open>mapSpeedToDuration 100 = 600\<close>; and the function is decreasing on \<open>[0, 100]\<close>: never
  increasing, and strictly decreasing between speeds at least 1 apart, hence between any
  two distinct integer slider positions.
\<close>

theorem mapSpeedToDuration_spec:
  assumes "0 \<le> x" and "x \<le> y" and "y \<le> 100"
  shows "mapSpeedToDuration x = fsub 4000 (fmul (fdiv x 100) (fsub 4000 600)) \<and>
    \<bar>mapSpeedToDuration x - (4000 - x / 100 * (4000 - 600))\<bar> \<le> 1 / 2 ^ 39 \<and>
    mapSpeedToDuration 0 = 4000 \<and>
    mapSpeedToDuration 100 = 600 \<and>
    mapSpeedToDuration y \<le> mapSpeedToDuration x \<and>
    (x + 1 \<le> y \<longrightarrow> mapSpeedToDuration y < mapSpeedToDuration x)"
proof (intro conjI impI)
  show "mapSpeedToDuration x = fsub 4000 (fmul (fdiv x 100) (fsub 4000 600))"
    by (rule mapSpeedToDuration_unfold)
  have "x \<le> 100" using assms by simp
  then show "\<bar>mapSpeedToDuration x - (4000 - x / 100 * (4000 - 600))\<bar> \<le> 1 / 2 ^ 39"
    by (rule mapSpeedToDuration_error [OF assms(1)])
  show "mapSpeedToDuration 0 = 4000" by (rule mapSpeedToDuration_0)
  show "mapSpeedToDuration 100 = 600" by (rule mapSpeedToDuration_100)
  show "mapSpeedToDuration y \<le> mapSpeedToDuration x"
    by (rule mapSpeedToDuration_antimono [OF assms(2)])
  assume "x + 1 \<le> y"
  then show "mapSpeedToDuration y < mapSpeedToDuration x"
    using assms(3) by (intro mapSpeedToDuration_decreasing [OF assms(1)])
qed

theorem mapSpeedToDuration_spec_witness:
  "(0::rat) \<le> 58 \<and> (58::rat) \<le> 59 \<and> (59::rat) \<le> 100 \<and>
   \<bar>mapSpeedToDuration 58 - 2028\<bar> \<le> 1 / 2 ^ 39 \<and>
   mapSpeedToDuration 59 < mapSpeedToDuration 58"
proof -
  have h: "(0::rat) \<le> 58" "(58::rat) \<le> 59" "(59::rat) \<le> 100" by simp_all
  from mapSpeedToDuration_spec [OF h]
  have "\<bar>mapSpeedToDuration 58 - (4000 - 58 / 100 * (4000 - 600))\<bar> \<le> 1 / 2 ^ 39"
    and "58 + 1 \<le> (59::rat) \<longrightarrow> mapSpeedToDuration 59 < mapSpeedToDuration 58"
    by blast+
  then show ?thesis by simp
qed

text \<open>
  C5. For every delay in \<open>[0, 100]\<close>, \<open>mapDelayToMs delay\<close> is
  \<open>500 + (delay / 100) * (6000 - 500)\<close> evaluated in binary64 arithmetic, which lies within
  \<open>2^-38\<close> of the rational value of that formula; \<open>mapDelayToMs 0 = 500\<close>,
  \<open>mapDelayToMs 100 = 6000\<close>; and the function is increasing on \<open>[0, 100]\<close>: never
  decreasing, and strictly increasing between delays at least 1 apart.
\<close>

theorem mapDelayToMs_spec:
  assumes "0 \<le> x" and "x \<le> y" and "y \<le> 100"
  shows "mapDelayToMs x = fadd 500 (fmul (fdiv x 100) (fsub 6000 500)) \<and>
    \<bar>mapDelayToMs x - (500 + x / 100 * (6000 - 500))\<bar> \<le> 1 / 2 ^ 38 \<and>
    mapDelayToMs 0 = 500 \<and>
    mapDelayToMs 100 = 6000 \<and>
    mapDelayToMs x \<le> mapDelayToMs y \<and>
    (x + 1 \<le> y \<longrightarrow> mapDelayToMs x < mapDelayToMs y)"
proof (intro conjI impI)
  show "mapDelayToMs x = fadd 500 (fmul (fdiv x 100) (fsub 6000 500))"
    by (rule mapDelayToMs_unfold)
  have "x \<le> 100" using assms by simp
  then show "\<bar>mapDelayToMs x - (500 + x / 100 * (6000 - 500))\<bar> \<le> 1 / 2 ^ 38"
    by (rule mapDelayToMs_error [OF assms(1)])
  show "mapDelayToMs 0 = 500" by (rule mapDelayToMs_0)
  show "mapDelayToMs 100 = 6000" by (rule mapDelayToMs_100)
  show "mapDelayToMs x \<le> mapDelayToMs y"
    by (rule mapDelayToMs_mono [OF assms(2)])
  assume "x + 1 \<le> y"
  then show "mapDelayToMs x < mapDelayToMs y"
    using assms(3) by (intro mapDelayToMs_increasing [OF assms(1)])
qed

theorem mapDelayToMs_spec_witness:
  "(0::rat) \<le> 28 \<and> (28::rat) \<le> 29 \<and> (29::rat) \<le> 100 \<and>
   \<bar>mapDelayToMs 28 - 2040\<bar> \<le> 1 / 2 ^ 38 \<and>
   mapDelayToMs 28 < mapDelayToMs 29"
proof -
  have h: "(0::rat) \<le> 28" "(28::rat) \<le> 29" "(29::rat) \<le> 100" by simp_all
  from mapDelayToMs_spec [OF h]
  have "\<bar>mapDelayToMs 28 - (500 + 28 / 100 * (6000 - 500))\<bar> \<le> 1 / 2 ^ 38"
    and "28 + 1 \<le> (29::rat) \<longrightarrow> mapDelayToMs 28 < mapDelayToMs 29"
    by blast+
  then show ?thesis by simp
qed

section \<open>The shade overlay\<close>

lemma animation_effect_shade:
  assumes "animation_effect s p now = Transition c"
  shows "shade_seen c = shade s" and "duration c = mapSpeedToDuration (speed s)"
  using assms by (auto simp: animation_effect_def Let_def split: if_splits)

text \<open>
  C6. For every shade intensity in \<open>[0, 100]\<close>, each frame of a transition started in that
  state ends with the overlay: when the intensity is positive, a black rectangle over the
  whole canvas at alpha \<open>(shade / 100) * 0.65\<close>, and nothing when it is not positive. At
  intensity 0 nothing is drawn and the formula gives 0; at intensity 100 the alpha is the
  number \<open>0.65\<close> itself.
\<close>

theorem shade_overlay_alpha:
  assumes "animation_effect s p now = Transition c" and "0 \<le> shade s" and "shade s \<le> 100"
  shows "drop 9 (fst (render c cv time)) =
      (if 0 < shade s then
         [Save, GlobalAlpha (fmul (fdiv (shade s) 100) (fl (65 / 100))),
          FillStyle ''#000000'', FillRect 0 0 (width cv) (height cv), Restore]
       else []) \<and>
    (shade s = 0 \<longrightarrow>
       drop 9 (fst (render c cv time)) = [] \<and> fmul (fdiv (shade s) 100) (fl (65 / 100)) = 0) \<and>
    (shade s = 100 \<longrightarrow>
       drop 9 (fst (render c cv time)) ! 1 = GlobalAlpha (fl (65 / 100)))"
proof -
  have "fmul (fdiv 100 100) (fl (65 / 100)) = fl (65 / 100)"
    by (simp add: fmul_def fdiv_def fl_idem)
  moreover have "fmul (fdiv 0 100) (fl (65 / 100)) = 0"
    by (simp add: fmul_def fdiv_def)
  ultimately show ?thesis
    by (simp add: render_def Let_def animation_effect_shade(1) [OF assms(1)])
qed

theorem shade_overlay_alpha_witness:
  "animation_effect
     (initial\<lparr>images := [\<lparr>url = 0, img = Image 0\<rparr>], shade := 100\<rparr>)
     \<lparr>drawWidth = 400, drawHeight = 300, centerX = 400, centerY = 300, angleRad = 0\<rparr> 0 =
   Transition
     \<lparr>drawWidth = 400, drawHeight = 300, centerX = 400, centerY = 300, angleRad = 0,
      image = Image 0, duration = mapSpeedToDuration 60, start = 0, shade_seen = 100\<rparr> \<and>
   drop 9 (fst (render
     \<lparr>drawWidth = 400, drawHeight = 300, centerX = 400, centerY = 300, angleRad = 0,
      image = Image 0, duration = mapSpeedToDuration 60, start = 0, shade_seen = 100\<rparr>
     \<lparr>width = 800, height = 600\<rparr> 16)) ! 1 = GlobalAlpha (fl (65 / 100))"
proof -
  let ?s = "initial\<lparr>images := [\<lparr>url = 0, img = Image 0\<rparr>], shade := 100\<rparr>"
  let ?p = "\<lparr>drawWidth = 400, drawHeight = 300, centerX = 400, centerY = 300, angleRad = 0\<rparr>"
  let ?c = "\<lparr>drawWidth = 400, drawHeight = 300, centerX = 400, centerY = 300, angleRad = 0,
      image = Image 0, duration = mapSpeedToDuration 60, start = 0, shade_seen = 100\<rparr>"
  have e: "animation_effect ?s ?p 0 = Transition ?c"
    by (simp add: animation_effect_def initial_def)
  have h: "0 \<le> shade ?s" "shade ?s \<le> 100" by simp_all
  from shade_overlay_alpha [OF e h, of "\<lparr>width = 800, height = 600\<rparr>" 16]
  have "shade ?s = 100 \<longrightarrow>
      drop 9 (fst (render ?c \<lparr>width = 800, height = 600\<rparr> 16)) ! 1 = GlobalAlpha (fl (65 / 100))"
    by blast
  moreover have "shade ?s = 100" by simp
  ultimately have "drop 9 (fst (render ?c \<lparr>width = 800, height = 600\<rparr> 16)) ! 1 =
      GlobalAlpha (fl (65 / 100))"
    by blast
  with e show ?thesis by blast
qed

section \<open>The advance timer: results\<close>

lemma Math_random_half: "Math_random (1 / 2)"
  using fl_exact [of 1 "- 1"] by (simp add: Math_random_def)

lemma random_index_2_half: "random_index 2 (1 / 2) = 1"
proof -
  have "(1::rat) / 2 * 2 = 1" by simp
  then show ?thesis by (simp add: random_index_def fmul_def)
qed

lemma random_index_1:
  assumes "Math_random r"
  shows "random_index 1 r = 0"
  using random_index_less [OF assms, of 1] by simp

text \<open>
  C2. For a list of \<open>n \<ge> 2\<close> images (a JavaScript array has fewer than \<open>2^32\<close> elements),
  any current index \<open>prev\<close> and draws \<open>r\<close> that are results of \<^verbatim>\<open>Math.random()\<close>:
  whenever the updater returns, its index lies in \<open>[0, n)\<close> and differs from \<open>prev\<close>;
  it does return as soon as one draw has \<open>r * n \<ge> prev + 1\<close> or \<open>r * n \<le> prev - 2^-20\<close>;
  every index of the list other than \<open>prev\<close> is returned for some draws; and it loops
  forever when every draw has \<open>prev \<le> r * n \<le> prev + 1/2\<close>.
\<close>

theorem advance_selects_other_index:
  assumes "2 \<le> n" and "n < 2 ^ 32" and "\<forall>r\<in>sset rs. Math_random r"
  shows "(\<forall>y. setCurrentIndex_updater n rs prev = Some y \<longrightarrow> y < n \<and> y \<noteq> prev) \<and>
    ((\<exists>k. of_nat prev + 1 \<le> rs !! k * of_nat n \<or> rs !! k * of_nat n \<le> of_nat prev - 1 / 2 ^ 20) \<longrightarrow>
       (\<exists>y. setCurrentIndex_updater n rs prev = Some y \<and> y < n \<and> y \<noteq> prev)) \<and>
    (\<forall>j<n. j \<noteq> prev \<longrightarrow>
       (\<exists>ds. (\<forall>r\<in>sset ds. Math_random r) \<and> setCurrentIndex_updater n ds prev = Some j)) \<and>
    ((\<forall>k. of_nat prev \<le> rs !! k * of_nat n \<and> rs !! k * of_nat n \<le> of_nat prev + 1 / 2) \<longrightarrow>
       setCurrentIndex_updater n rs prev = None)"
proof (intro conjI allI impI)
  have "(2::nat) ^ 32 < 2 ^ 53" by simp
  with assms(1,2) have n: "0 < n" "n < 2 ^ 53" by linarith+
  have u: "setCurrentIndex_updater n ds prev = reroll n prev prev ds" for ds
    using assms(1) by (simp add: setCurrentIndex_updater_def)
  have draw: "Math_random (rs !! k)" for k using assms(3) by (simp add: snth_sset)
  have part: "y < n \<and> y \<noteq> prev" if "setCurrentIndex_updater n rs prev = Some y" for y
  proof -
    from that have "reroll n prev prev rs = Some y" by (simp only: u)
    from reroll_Some [OF this] obtain r where "r \<in> sset rs" "y = random_index n r" "y \<noteq> prev"
      by auto
    then show ?thesis using assms(3) random_index_less [OF _ n] by auto
  qed
  {
    fix y
    assume "setCurrentIndex_updater n rs prev = Some y"
    then show "y < n" and "y \<noteq> prev" using part by blast+
  }
  {
    assume "\<exists>k. of_nat prev + 1 \<le> rs !! k * of_nat n \<or> rs !! k * of_nat n \<le> of_nat prev - 1 / 2 ^ 20"
    then obtain k where k: "of_nat prev + 1 \<le> rs !! k * of_nat n \<or>
        rs !! k * of_nat n \<le> of_nat prev - 1 / 2 ^ 20"
      by blast
    have r: "0 \<le> rs !! k" "rs !! k < 1" using draw [of k] by (simp_all add: Math_random_def)
    have "random_index n (rs !! k) \<noteq> prev"
    proof (rule disjE [OF k])
      assume a: "of_nat prev + 1 \<le> rs !! k * of_nat n"
      have "rs !! k * of_nat n \<le> 1 * of_nat n" using r(2) by (intro mult_right_mono) simp_all
      then have "(of_nat prev :: rat) < of_nat n" using a by simp
      then have "prev < n" by (simp only: of_nat_less_iff)
      then have "prev < 2 ^ 32" using assms(2) by simp
      from random_index_above [OF a this] show ?thesis by simp
    next
      assume "rs !! k * of_nat n \<le> of_nat prev - 1 / 2 ^ 20"
      from random_index_below [OF r assms(2) this] show ?thesis by simp
    qed
    from reroll_returns [OF this] obtain y where "setCurrentIndex_updater n rs prev = Some y"
      unfolding u by blast
    then show "\<exists>y. setCurrentIndex_updater n rs prev = Some y \<and> y < n \<and> y \<noteq> prev"
      using part by blast
  }
  {
    fix j
    assume j: "j < n" "j \<noteq> prev"
    let ?r = "fl ((of_nat j + 1 / 2) / of_nat n)"
    have "Math_random ?r" and i: "random_index n ?r = j"
      by (rule random_index_target [OF j(1) assms(2)])+
    then have "\<forall>r\<in>sset (sconst ?r). Math_random r" by simp
    moreover have "setCurrentIndex_updater n (sconst ?r) prev = Some j"
      unfolding u using i j(2) by (subst reroll_step) simp
    ultimately show "\<exists>ds. (\<forall>r\<in>sset ds. Math_random r) \<and> setCurrentIndex_updater n ds prev = Some j"
      by blast
  }
  {
    assume a: "\<forall>k. of_nat prev \<le> rs !! k * of_nat n \<and> rs !! k * of_nat n \<le> of_nat prev + 1 / 2"
    have r: "rs !! 0 < 1" using draw [of 0] by (simp add: Math_random_def)
    have "rs !! 0 * of_nat n \<le> 1 * of_nat n" using r by (intro mult_right_mono) simp_all
    moreover have "of_nat prev \<le> rs !! 0 * of_nat n" using a by blast
    ultimately have "(of_nat prev :: rat) \<le> of_nat n" by simp
    then have "prev \<le> n" by (simp only: of_nat_le_iff)
    then have p: "prev < 2 ^ 32" using assms(2) by simp
    have "\<forall>r\<in>sset rs. random_index n r = prev"
      using a random_index_stays [OF _ _ p] by (auto simp: sset_range)
    then show "setCurrentIndex_updater n rs prev = None"
      unfolding u by (rule reroll_None)
  }
qed

theorem advance_selects_other_index_witness:
  "(2::nat) \<le> 2 \<and> (2::nat) < 2 ^ 32 \<and> Math_random (1 / 2) \<and>
   of_nat 0 + 1 \<le> sconst ((1::rat) / 2) !! 0 * of_nat 2 \<and>
   (\<exists>y. setCurrentIndex_updater 2 (sconst (1 / 2)) 0 = Some y \<and> y < 2 \<and> y \<noteq> 0)"
proof -
  have h: "(2::nat) \<le> 2" "(2::nat) < 2 ^ 32" "\<forall>r\<in>sset (sconst (1 / 2)). Math_random r"
    by (simp_all add: Math_random_half)
  have k: "of_nat 0 + 1 \<le> sconst ((1::rat) / 2) !! 0 * of_nat 2" by simp
  then have "\<exists>k. of_nat 0 + 1 \<le> sconst ((1::rat) / 2) !! k * of_nat 2 \<or>
      sconst ((1::rat) / 2) !! k * of_nat 2 \<le> of_nat 0 - 1 / 2 ^ 20"
    by blast
  with advance_selects_other_index [OF h, of 0]
  have "\<exists>y. setCurrentIndex_updater 2 (sconst (1 / 2)) 0 = Some y \<and> y < 2 \<and> y \<noteq> 0" by blast
  then show ?thesis using h(1,2) k Math_random_half by blast
qed

text \<open>
  The loop alone, entered with one image, would never end: every draw yields index 0.
  The updater does not enter it.
\<close>

lemma reroll_single_image:
  assumes "\<forall>r\<in>sset rs. Math_random r"
  shows "reroll 1 0 0 rs = None"
proof (rule reroll_None)
  show "\<forall>r\<in>sset rs. random_index 1 r = 0" using assms random_index_1 by blast
qed

text \<open>
  C3, as stated: with exactly one image the advance path loops forever. It does not: the
  updater returns the current index at once, also when every draw yields index 0.
\<close>

theorem single_image_loops_counterexample:
  "setCurrentIndex_updater 1 (sconst 0) 0 = Some 0 \<and>
   run initial [ImageUpload (Some [File ''a'']), ImageLoad 0, AdvanceTimeout (sconst 0)] \<noteq> None"
  by (simp add: setCurrentIndex_updater_def step_def handleImageUpload_def forEach_file_def
      createObjectURL_def img_onload_def advance_timeout_def initial_def Let_def)

text \<open>
  C3, amended. With exactly one image the advance path ends and changes nothing: the
  effect sets no timer (\<^verbatim>\<open>images.length <= 1\<close>), and the updater is guarded in the same
  way and returns the current index without drawing.
\<close>

theorem single_image_no_advance:
  assumes "length (images s) = 1"
  shows "advance_timeout s rs = Some s \<and>
    setCurrentIndex_updater (length (images s)) rs (currentIndex s) = Some (currentIndex s)"
  using assms by (simp add: advance_timeout_def setCurrentIndex_updater_def)

theorem single_image_no_advance_witness:
  "length (images (initial\<lparr>images := [\<lparr>url = 0, img = Image 0\<rparr>], isPlaying := True\<rparr>)) = 1 \<and>
   advance_timeout (initial\<lparr>images := [\<lparr>url = 0, img = Image 0\<rparr>], isPlaying := True\<rparr>) (sconst 0) =
     Some (initial\<lparr>images := [\<lparr>url = 0, img = Image 0\<rparr>], isPlaying := True\<rparr>)"
proof -
  let ?s = "initial\<lparr>images := [\<lparr>url = 0, img = Image 0\<rparr>], isPlaying := True\<rparr>"
  have h: "length (images ?s) = 1" by simp
  from single_image_no_advance [OF h, of "sconst 0"] h show ?thesis by blast
qed

section \<open>Uploads: results\<close>













lemma img_onload_isPlaying:
  "isPlaying (img_onload s b) =
     (if b < length (uploads s) \<and>
         loadedCount (uploads s ! b) + 1 = files_length (uploads s ! b) \<and>
         \<not> isPlaying_seen (uploads s ! b)
      then True else isPlaying s)"
  by (simp add: img_onload_def Let_def)

text \<open>
  C9. A first image is uploaded and loads, which starts playback. A second upload is
  made while playing, so its closure holds \<^verbatim>\<open>isPlaying = true\<close>; the user pauses; then the
  second image loads. The batch is appended, and \<^verbatim>\<open>if (!isPlaying) setIsPlaying(true)\<close>
  tests the value the closure holds, not the state: playback stays paused.
\<close>

theorem upload_while_playing_then_pause:
  "map_option (\<lambda>t. (length (images t), isPlaying t))
     (run initial
        [ImageUpload (Some [File ''a'']), ImageLoad 0,
         ImageUpload (Some [File ''b'']), PlayPauseClick, ImageLoad 1]) =
   Some (2, False) \<and>
   map_option (\<lambda>t. (length (images t), isPlaying t))
     (run initial
        [ImageUpload (Some [File ''a'']), ImageLoad 0,
         ImageUpload (Some [File ''b'']), PlayPauseClick]) =
   Some (1, False)"
  by code_simp

text \<open>
  C10. The upload handler called with no file list, or with an empty one, returns the
  state it was given: image list, current index, play state, sliders, object URLs and
  pending uploads are all unchanged.
\<close>

theorem empty_selection_noop:
  "handleImageUpload s None = s \<and> handleImageUpload s (Some []) = s \<and>
   step s (ImageUpload None) = Some s \<and> step s (ImageUpload (Some [])) = Some s"
  by (simp add: handleImageUpload_def step_def)

lemma step_upload_currentIndex:
  "currentIndex (handleImageUpload s files) = currentIndex s"
  "currentIndex (img_onload s b) = currentIndex s"
  by (simp_all add: handleImageUpload_def img_onload_def Let_def split: option.splits prod.splits)

lemma updater_2_half: "setCurrentIndex_updater 2 (sconst (1 / 2)) 0 = Some 1"
  by (simp add: setCurrentIndex_updater_def reroll_step random_index_2_half)

lemma animation_effect_no_TypeError:
  assumes "index_ok s"
  shows "animation_effect s p now \<noteq> TypeError"
  using assms by (simp add: animation_effect_def index_ok_def Let_def split: if_splits)

lemma index_ok_initial: "index_ok initial"
  by (simp add: index_ok_def initial_def)

text \<open>
  C7. In every state the component reaches from its initial state, by any sequence of
  events whose timeouts draw results of \<^verbatim>\<open>Math.random()\<close> (the image array having fewer than
  \<open>2^32\<close> elements, as every JavaScript array has): if the image list is not empty, the
  current index is below its length. Neither the upload handler nor an \<^verbatim>\<open>onload\<close>
  callback, which makes the append, changes the current index.
\<close>

theorem currentIndex_valid:
  assumes "run initial es = Some s" and "\<forall>e\<in>set es. random_draws_ok e"
    and "length (images s) < 2 ^ 32"
  shows "(images s \<noteq> [] \<longrightarrow> currentIndex s < length (images s)) \<and>
    currentIndex (handleImageUpload s files) = currentIndex s \<and>
    currentIndex (img_onload s b) = currentIndex s"
proof -
  have "(2::nat) ^ 32 < 2 ^ 53" by simp
  then have "length (images s) < 2 ^ 53" using assms(3) by linarith
  then have "index_ok s" by (rule run_index_ok [OF assms(1) index_ok_initial assms(2)])
  then show ?thesis by (simp add: index_ok_def step_upload_currentIndex split: if_splits)
qed

theorem currentIndex_valid_witness:
  "run initial [ImageUpload (Some [File ''a'', File ''b'']), ImageLoad 0, ImageLoad 0,
       AdvanceTimeout (sconst (1 / 2))] =
     Some (initial\<lparr>images := [\<lparr>url = 0, img = Image 0\<rparr>, \<lparr>url = 1, img = Image 1\<rparr>],
       currentIndex := 1, isPlaying := True, objectURLs := [File ''a'', File ''b''],
       uploads := [\<lparr>files_length = 2,
         newEntries = [\<lparr>url = 0, img = Image 0\<rparr>, \<lparr>url = 1, img = Image 1\<rparr>],
         loadedCount = 2, isPlaying_seen = False\<rparr>]\<rparr>) \<and>
   list_all random_draws_ok [ImageUpload (Some [File ''a'', File ''b'']), ImageLoad 0, ImageLoad 0,
       AdvanceTimeout (sconst (1 / 2))] \<and>
   currentIndex (initial\<lparr>images := [\<lparr>url = 0, img = Image 0\<rparr>, \<lparr>url = 1, img = Image 1\<rparr>],
       currentIndex := 1, isPlaying := True, objectURLs := [File ''a'', File ''b''],
       uploads := [\<lparr>files_length = 2,
         newEntries = [\<lparr>url = 0, img = Image 0\<rparr>, \<lparr>url = 1, img = Image 1\<rparr>],
         loadedCount = 2, isPlaying_seen = False\<rparr>]\<rparr>) < 2"
proof -
  let ?es = "[ImageUpload (Some [File ''a'', File ''b'']), ImageLoad 0, ImageLoad 0,
       AdvanceTimeout (sconst (1 / 2))]"
  let ?s = "initial\<lparr>images := [\<lparr>url = 0, img = Image 0\<rparr>, \<lparr>url = 1, img = Image 1\<rparr>],
       currentIndex := 1, isPlaying := True, objectURLs := [File ''a'', File ''b''],
       uploads := [\<lparr>files_length = 2,
         newEntries = [\<lparr>url = 0, img = Image 0\<rparr>, \<lparr>url = 1, img = Image 1\<rparr>],
         loadedCount = 2, isPlaying_seen = False\<rparr>]\<rparr>"
  let ?s2 = "initial\<lparr>images := [\<lparr>url = 0, img = Image 0\<rparr>, \<lparr>url = 1, img = Image 1\<rparr>],
       isPlaying := True, objectURLs := [File ''a'', File ''b''],
       uploads := [\<lparr>files_length = 2,
         newEntries = [\<lparr>url = 0, img = Image 0\<rparr>, \<lparr>url = 1, img = Image 1\<rparr>],
         loadedCount = 2, isPlaying_seen = False\<rparr>]\<rparr>"
  have "run initial [ImageUpload (Some [File ''a'', File ''b'']), ImageLoad 0, ImageLoad 0] = Some ?s2"
    by code_simp
  moreover have "step ?s2 (AdvanceTimeout (sconst (1 / 2))) = Some ?s"
  proof -
    have "advance_timeout ?s2 (sconst (1 / 2)) =
        map_option (\<lambda>n. ?s2\<lparr>currentIndex := n\<rparr>)
          (setCurrentIndex_updater (length (images ?s2)) (sconst (1 / 2)) (currentIndex ?s2))"
      by (simp add: advance_timeout_def)
    moreover have "length (images ?s2) = 2" "currentIndex ?s2 = 0" by (simp_all add: initial_def)
    ultimately have "advance_timeout ?s2 (sconst (1 / 2)) = Some (?s2\<lparr>currentIndex := 1\<rparr>)"
      by (simp only: updater_2_half option.map)
    then show ?thesis by (simp add: step_def)
  qed
  ultimately have r: "run initial ?es = Some ?s"
    using run_append [of initial "[ImageUpload (Some [File ''a'', File ''b'']), ImageLoad 0, ImageLoad 0]"
        "[AdvanceTimeout (sconst (1 / 2))]"]
    by simp
  have ok: "\<forall>e\<in>set ?es. random_draws_ok e"
    by (simp add: random_draws_ok_def Math_random_half)
  have len: "length (images ?s) < 2 ^ 32" by simp
  from currentIndex_valid [OF r ok len] have "images ?s \<noteq> [] \<longrightarrow> currentIndex ?s < length (images ?s)"
    by blast
  then have "currentIndex ?s < 2" by simp
  moreover have "list_all random_draws_ok ?es" using ok by (simp only: list_all_iff)
  ultimately show ?thesis using r by blast
qed

end
